theory Spec2Isabelle
  imports Main "HOL-Library.Word"
begin

section \<open>The UDP echo listener of listener.py\<close>

text \<open>
  The program binds one UDP socket and then runs forever: receive a datagram, log it
  (raw bytes, sender, length, hex dump), announce the echo, sleep one second, send the
  same bytes back, log a failed send.  The development embeds the pure helper
  \<open>bytes_dump\<close> as a HOL function, and the module body as a function from the
  behaviour of the outside world (what each library call returns or raises) to the trace
  of library calls the program makes.
\<close>

subsection \<open>Data\<close>

text \<open>
  An element of a Python \<open>bytes\<close> object is an integer in 0..255; an IPv4 socket address
  is a pair of a host string and a port number.
\<close>

type_synonym byte = "8 word"

type_synonym address = "string \<times> nat"

subsection \<open>The hex dump\<close>

text \<open>
  \<open>"{:02X}".format(n)\<close> renders the integer \<open>n\<close> in base 16 with the digits
  \<open>0123456789ABCDEF\<close>, a minus sign in front of a negative number, and zeros
  between the sign and the digits until the whole field is at least two characters wide.
\<close>

definition hex_digit_upper :: "nat \<Rightarrow> char" where
  "hex_digit_upper d = ''0123456789ABCDEF'' ! d"

fun hex_upper :: "nat \<Rightarrow> string" where
  "hex_upper n =
     (if n < 16 then [hex_digit_upper n]
      else hex_upper (n div 16) @ [hex_digit_upper (n mod 16)])"

declare hex_upper.simps [simp del]

definition format_02X :: "int \<Rightarrow> string" where
  "format_02X n =
     (let sign = (if n < 0 then ''-'' else '''');
          digits = hex_upper (nat \<bar>n\<bar>)
      in sign @ replicate (2 - (length sign + length digits)) (CHR ''0'') @ digits)"

text \<open>
  \<open>bytes_dump\<close> starts from the empty list \<open>res\<close> and, for each byte of \<open>idata\<close> in
  order, appends the formatted \<open>int(byte)\<close>; the loop is the recursion of
  \<open>bytes_dump_loop\<close> over the bytes still to visit, with \<open>res\<close> as accumulator.
\<close>

fun bytes_dump_loop :: "byte list \<Rightarrow> string list \<Rightarrow> string list" where
  "bytes_dump_loop [] res = res"
| "bytes_dump_loop (byte # rest) res = bytes_dump_loop rest (res @ [format_02X (uint byte)])"

definition bytes_dump :: "byte list \<Rightarrow> string list" where
  "bytes_dump idata = bytes_dump_loop idata []"

text \<open>
  The reading of a token back as a number, used to say what a token denotes: the value of
  a character as an uppercase hexadecimal digit (by its code point), and the base-16 value
  of a string of such digits.
\<close>

definition hex_digit_value :: "char \<Rightarrow> nat option" where
  "hex_digit_value c =
     (let k = (of_char c :: nat) in
      if 48 \<le> k \<and> k \<le> 57 then Some (k - 48)
      else if 65 \<le> k \<and> k \<le> 70 then Some (k - 55)
      else None)"

fun hex_value :: "string \<Rightarrow> nat option" where
  "hex_value [] = Some 0"
| "hex_value (c # cs) =
     (case (hex_digit_value c, hex_value cs) of
        (Some d, Some v) \<Rightarrow> Some (d * 16 ^ length cs + v)
      | _ \<Rightarrow> None)"

subsection \<open>The same function on a store\<close>

text \<open>
  \<open>bytes_dump\<close> once more, with the objects it touches kept in a store, so that what
  it writes can be stated.  The store is the list of the objects allocated so far and a
  reference is an index into it; a new object goes to the end.  \<open>res = []\<close> allocates a
  list, \<open>for byte in idata\<close> reads the byte sequence behind the reference \<open>idata\<close> by
  a running index, \<open>res.append\<close> updates the list behind \<open>res\<close> in place, and the
  reference \<open>res\<close> is returned.  The result is \<open>None\<close> when \<open>idata\<close> is not a
  reference to a byte sequence, or \<open>res\<close> not one to a list.
\<close>

datatype pyobj = Byte_seq "byte list" | Str_list "string list"

type_synonym store = "pyobj list"

definition byte_seq_at :: "store \<Rightarrow> nat \<Rightarrow> byte list option" where
  "byte_seq_at h r =
     (if r < length h then (case h ! r of Byte_seq bs \<Rightarrow> Some bs | Str_list l \<Rightarrow> None)
      else None)"

definition str_list_at :: "store \<Rightarrow> nat \<Rightarrow> string list option" where
  "str_list_at h r =
     (if r < length h then (case h ! r of Byte_seq bs \<Rightarrow> None | Str_list l \<Rightarrow> Some l)
      else None)"

definition list_append :: "store \<Rightarrow> nat \<Rightarrow> string \<Rightarrow> store option" where
  "list_append h r s =
     (case str_list_at h r of None \<Rightarrow> None | Some l \<Rightarrow> Some (h[r := Str_list (l @ [s])]))"

function bytes_dump_iter :: "nat \<Rightarrow> nat \<Rightarrow> nat \<Rightarrow> store \<Rightarrow> store option" where
  "bytes_dump_iter idata res i h =
     (case byte_seq_at h idata of
        None \<Rightarrow> None
      | Some bs \<Rightarrow>
          if i < length bs
          then (case list_append h res (format_02X (uint (bs ! i))) of
                  None \<Rightarrow> None
                | Some h' \<Rightarrow> bytes_dump_iter idata res (Suc i) h')
          else Some h)"
  by pat_completeness auto
termination
  by (relation "measure (\<lambda>(idata, res, i, h).
        (case byte_seq_at h idata of None \<Rightarrow> 0 | Some bs \<Rightarrow> length bs - i))")
     (auto simp: list_append_def byte_seq_at_def str_list_at_def nth_list_update
           split: option.splits pyobj.splits if_splits)

declare bytes_dump_iter.simps [simp del]

definition bytes_dump_store :: "nat \<Rightarrow> store \<Rightarrow> (nat \<times> store) option" where
  "bytes_dump_store idata h =
     (let res = length h;
          h1 = h @ [Str_list []]
      in (case bytes_dump_iter idata res 0 h1 of
            None \<Rightarrow> None
          | Some h2 \<Rightarrow> Some (res, h2)))"

subsection \<open>The outside world\<close>

text \<open>
  What a library call raises.  Python's \<open>except Exception\<close> matches an exception whose
  class derives from \<open>Exception\<close> (every error of the socket layer is an \<open>OSError\<close>,
  which does); \<open>KeyboardInterrupt\<close>, \<open>SystemExit\<close> and \<open>GeneratorExit\<close> derive from
  \<open>BaseException\<close> only and are not matched.  Both constructors carry the name of the
  class and the text \<open>str(e)\<close>.
\<close>

datatype raised =
    Exception_instance (class_name: string) (str_of: string)
  | BaseException_only (class_name: string) (str_of: string)

fun isinstance_Exception :: "raised \<Rightarrow> bool" where
  "isinstance_Exception (Exception_instance c s) = True"
| "isinstance_Exception (BaseException_only c s) = False"

text \<open>
  The world decides what each call returns.  For \<open>recvfrom\<close> it supplies the next
  datagram that arrives on the port, with its payload as sent and the address of its
  sender, or an exception; for \<open>sendto\<close> the number of bytes sent, or an exception.
  One iteration of the loop meets one such pair; \<open>socket\<close> and \<open>bind\<close> return or raise.
\<close>

datatype recv_outcome = Datagram "byte list" address | Recv_raises raised

datatype send_outcome = Send_returns nat | Send_raises raised

type_synonym iteration = "recv_outcome \<times> send_outcome"

record world =
  socket_raises :: "raised option"
  bind_raises :: "raised option"
  iterations :: "iteration list"

text \<open>
  \<open>recvfrom(bufsize)\<close> on a datagram socket returns at most \<open>bufsize\<close> bytes of the
  datagram, together with the sender's address; the rest of a longer datagram is
  discarded.
\<close>

fun sock_recvfrom :: "nat \<Rightarrow> recv_outcome \<Rightarrow> raised + (byte list \<times> address)" where
  "sock_recvfrom bufsize (Datagram payload sender) = Inr (take bufsize payload, sender)"
| "sock_recvfrom bufsize (Recv_raises e) = Inl e"

subsection \<open>The trace of the program\<close>

text \<open>
  The program is observed through the calls it makes and what they return or raise, in
  order.  The first \<open>print\<close> of an iteration is recorded by the four values its
  f-string interpolates: \<open>data\<close>, \<open>addr\<close>, \<open>len(data)\<close> and
  \<open>bytes_dump(data)\<close>; the second by \<open>addr\<close>; the one of the handler by the text
  \<open>str(e)\<close> it interpolates.  \<open>print\<close> and \<open>sleep\<close> are taken to return.
\<close>

datatype address_family = AF_INET | AF_INET6 | AF_UNIX

datatype socket_kind = SOCK_STREAM | SOCK_DGRAM

datatype event =
    Call_socket address_family socket_kind
  | Call_bind address
  | Call_recvfrom nat
  | Recvfrom_returned "byte list" address
  | Recvfrom_raised raised
  | Print_received "byte list" address nat "string list"
  | Print_echoing address
  | Call_sleep nat
  | Call_sendto "byte list" address
  | Sendto_returned nat
  | Sendto_raised raised
  | Print_echo_failed string

datatype status = Blocked_in_recvfrom | Terminated raised

definition UDP_IP :: string where
  "UDP_IP = ''127.0.0.1''"

definition UDP_PORT :: nat where
  "UDP_PORT = 3400"

text \<open>
  The \<open>try\<close> statement around the send.  When \<open>sendto\<close> returns, its value is
  dropped and nothing more happens; an exception matched by \<open>except Exception\<close> is
  printed and the statement is left normally; any other exception leaves it raised.
\<close>

fun try_sendto :: "byte list \<Rightarrow> address \<Rightarrow> send_outcome \<Rightarrow> event list \<times> raised option" where
  "try_sendto data addr (Send_returns n) = ([Call_sendto data addr, Sendto_returned n], None)"
| "try_sendto data addr (Send_raises e) =
     (if isinstance_Exception e
      then ([Call_sendto data addr, Sendto_raised e, Print_echo_failed (str_of e)], None)
      else ([Call_sendto data addr, Sendto_raised e], Some e))"

text \<open>
  One pass through the body of \<open>while True\<close>: the events of the pass, and the exception
  that leaves the body, if one does.  Nothing guards \<open>recvfrom\<close>.
\<close>

fun loop_body :: "iteration \<Rightarrow> event list \<times> raised option" where
  "loop_body (rcv, snd_out) =
     (case sock_recvfrom 16384 rcv of
        Inl e \<Rightarrow> ([Call_recvfrom 16384, Recvfrom_raised e], Some e)
      | Inr (data, addr) \<Rightarrow>
          ([Call_recvfrom 16384,
            Recvfrom_returned data addr,
            Print_received data addr (length data) (bytes_dump data),
            Print_echoing addr,
            Call_sleep 1]
             @ fst (try_sendto data addr snd_out),
           snd (try_sendto data addr snd_out)))"

text \<open>
  The four shapes of one pass through the body, as lists of events, with the exception
  that leaves the body; \<open>pass_loop_body\<close> below shows that \<open>loop_body\<close> has no other.
\<close>

inductive pass :: "event list \<Rightarrow> raised option \<Rightarrow> bool" where
  recv_raised:
    "pass [Call_recvfrom 16384, Recvfrom_raised e] (Some e)"
| sent:
    "length d \<le> 16384 \<Longrightarrow>
     pass [Call_recvfrom 16384, Recvfrom_returned d a,
           Print_received d a (length d) (bytes_dump d), Print_echoing a, Call_sleep 1,
           Call_sendto d a, Sendto_returned n] None"
| caught:
    "length d \<le> 16384 \<Longrightarrow> isinstance_Exception e \<Longrightarrow>
     pass [Call_recvfrom 16384, Recvfrom_returned d a,
           Print_received d a (length d) (bytes_dump d), Print_echoing a, Call_sleep 1,
           Call_sendto d a, Sendto_raised e, Print_echo_failed (str_of e)] None"
| escaped:
    "length d \<le> 16384 \<Longrightarrow> \<not> isinstance_Exception e \<Longrightarrow>
     pass [Call_recvfrom 16384, Recvfrom_returned d a,
           Print_received d a (length d) (bytes_dump d), Print_echoing a, Call_sleep 1,
           Call_sendto d a, Sendto_raised e] (Some e)"

text \<open>
  The loop never leaves by itself.  Run against the finite list of what the world does
  in the first iterations, it either is ended by an exception that leaves the body, or
  has consumed the list and is inside the next \<open>recvfrom\<close>, waiting.
\<close>

fun main_loop :: "iteration list \<Rightarrow> event list \<times> status" where
  "main_loop [] = ([Call_recvfrom 16384], Blocked_in_recvfrom)"
| "main_loop (w # ws) =
     (case snd (loop_body w) of
        Some e \<Rightarrow> (fst (loop_body w), Terminated e)
      | None \<Rightarrow> (fst (loop_body w) @ fst (main_loop ws), snd (main_loop ws)))"

text \<open>The module body: create the socket, bind it, enter the loop.\<close>

definition program :: "world \<Rightarrow> event list \<times> status" where
  "program w =
     (case socket_raises w of
        Some e \<Rightarrow> ([Call_socket AF_INET SOCK_DGRAM], Terminated e)
      | None \<Rightarrow>
          (case bind_raises w of
             Some e \<Rightarrow>
               ([Call_socket AF_INET SOCK_DGRAM, Call_bind (UDP_IP, UDP_PORT)], Terminated e)
           | None \<Rightarrow>
               ([Call_socket AF_INET SOCK_DGRAM, Call_bind (UDP_IP, UDP_PORT)]
                  @ fst (main_loop (iterations w)),
                snd (main_loop (iterations w)))))"

subsection \<open>Some worlds\<close>

text \<open>
  Four concrete worlds, on which the theorems below are exercised: one whose first echo
  is refused and whose second datagram is empty, one in which the first send is
  interrupted from the keyboard, one whose first receive fails, and one in which the port
  is taken.
\<close>

definition client :: address where
  "client = (''127.0.0.1'', 50000)"

definition refused :: raised where
  "refused = Exception_instance ''ConnectionRefusedError'' ''[Errno 111] Connection refused''"

definition keyboard_interrupt :: raised where
  "keyboard_interrupt = BaseException_only ''KeyboardInterrupt'' ''''"

definition failing_world :: world where
  "failing_world =
     \<lparr>socket_raises = None, bind_raises = None,
      iterations = [(Datagram [10] client, Send_raises refused),
                    (Datagram [] client, Send_returns 0)]\<rparr>"

definition interrupted_world :: world where
  "interrupted_world =
     \<lparr>socket_raises = None, bind_raises = None,
      iterations = [(Datagram [104, 105] client, Send_raises keyboard_interrupt),
                    (Datagram [] client, Send_returns 0)]\<rparr>"

definition deaf_world :: world where
  "deaf_world =
     \<lparr>socket_raises = None, bind_raises = None,
      iterations = [(Recv_raises refused, Send_returns 0),
                    (Datagram [] client, Send_returns 0)]\<rparr>"

definition port_taken_world :: world where
  "port_taken_world =
     \<lparr>socket_raises = None,
      bind_raises = Some (Exception_instance ''OSError'' ''[Errno 98] Address already in use''),
      iterations = [(Datagram [] client, Send_returns 0)]\<rparr>"

section \<open>Properties of the hex dump\<close>

lemma bytes_dump_loop_map:
  "bytes_dump_loop idata res = res @ map (\<lambda>byte. format_02X (uint byte)) idata"
  by (induction idata arbitrary: res) simp_all

lemma bytes_dump_map: "bytes_dump idata = map (\<lambda>byte. format_02X (uint byte)) idata"
  by (simp add: bytes_dump_def bytes_dump_loop_map)

lemma hex_upper_digit: "n < 16 \<Longrightarrow> hex_upper n = [hex_digit_upper n]"
  by (simp add: hex_upper.simps)

lemma hex_upper_two:
  assumes "16 \<le> n" and "n < 256"
  shows "hex_upper n = [hex_digit_upper (n div 16), hex_digit_upper (n mod 16)]"
proof -
  from assms have "n div 16 < 16" by simp
  with assms show ?thesis
    by (subst hex_upper.simps) (simp add: hex_upper_digit)
qed

lemma format_02X_nat:
  assumes "n < 256"
  shows "format_02X (int n) = [hex_digit_upper (n div 16), hex_digit_upper (n mod 16)]"
proof (cases "n < 16")
  case True
  then have "hex_digit_upper (n div 16) = CHR ''0''"
    by (simp add: hex_digit_upper_def)
  with True show ?thesis
    by (simp add: format_02X_def hex_upper_digit)
next
  case False
  with assms show ?thesis
    by (simp add: format_02X_def hex_upper_two)
qed

lemma format_02X_byte:
  "format_02X (uint (b :: byte)) =
     [hex_digit_upper (unat b div 16), hex_digit_upper (unat b mod 16)]"
proof -
  have "unat b < 256" using unsigned_less [of b] by simp
  then show ?thesis using format_02X_nat [of "unat b"] by simp
qed

lemma hex_digit_upper_cases:
  assumes "d < (16::nat)"
  shows "d \<in> {0, 1, 2, 3, 4, 5, 6, 7, 8, 9, 10, 11, 12, 13, 14, 15}"
  using assms by simp arith

lemma hex_digit_value_upper: "d < 16 \<Longrightarrow> hex_digit_value (hex_digit_upper d) = Some d"
  using hex_digit_upper_cases [of d]
  by (auto simp: hex_digit_value_def hex_digit_upper_def)

lemma hex_digit_upper_in: "d < 16 \<Longrightarrow> hex_digit_upper d \<in> set ''0123456789ABCDEF''"
  unfolding hex_digit_upper_def by (rule nth_mem) simp

lemma hex_value_token:
  assumes "n < 256"
  shows "hex_value [hex_digit_upper (n div 16), hex_digit_upper (n mod 16)] = Some n"
proof -
  from assms have "n div 16 < 16" and "n mod 16 < 16" by simp_all
  then show ?thesis by (simp add: hex_digit_value_upper)
qed

text \<open>
  Claim C2.  For every byte sequence, \<open>bytes_dump\<close> returns a list of the same length;
  its i-th element is the i-th byte written as two uppercase hexadecimal digits, the high
  one first, with a leading zero for a small byte: the token consists of two characters
  of \<open>0123456789ABCDEF\<close> and reads back as the value of the byte.  Byte 0 gives
  \<open>00\<close>, byte 10 gives \<open>0A\<close>, byte 255 gives \<open>FF\<close>.
\<close>

theorem bytes_dump_tokens:
  "length (bytes_dump idata) = length idata
   \<and> (\<forall>i < length idata.
        bytes_dump idata ! i =
          [hex_digit_upper (unat (idata ! i) div 16), hex_digit_upper (unat (idata ! i) mod 16)]
        \<and> length (bytes_dump idata ! i) = 2
        \<and> set (bytes_dump idata ! i) \<subseteq> set ''0123456789ABCDEF''
        \<and> hex_value (bytes_dump idata ! i) = Some (unat (idata ! i)))
   \<and> bytes_dump [0] = [''00''] \<and> bytes_dump [10] = [''0A''] \<and> bytes_dump [255] = [''FF'']"
proof (intro conjI allI impI)
  show "length (bytes_dump idata) = length idata"
    by (simp add: bytes_dump_map)
next
  fix i assume i: "i < length idata"
  let ?b = "idata ! i"
  have lt: "unat ?b < 256" using unsigned_less [of ?b] by simp
  then have d: "unat ?b div 16 < 16" "unat ?b mod 16 < 16" by simp_all
  show tok: "bytes_dump idata ! i =
      [hex_digit_upper (unat ?b div 16), hex_digit_upper (unat ?b mod 16)]"
    using i by (simp add: bytes_dump_map format_02X_byte)
  show "length (bytes_dump idata ! i) = 2"
    by (simp add: tok)
  show "set (bytes_dump idata ! i) \<subseteq> set ''0123456789ABCDEF''"
    unfolding tok using hex_digit_upper_in [OF d(1)] hex_digit_upper_in [OF d(2)] by simp
  show "hex_value (bytes_dump idata ! i) = Some (unat ?b)"
    unfolding tok by (rule hex_value_token [OF lt])
next
  show "bytes_dump [0] = [''00'']"
    by (simp add: bytes_dump_map format_02X_byte hex_digit_upper_def)
  show "bytes_dump [10] = [''0A'']"
    by (simp add: bytes_dump_map format_02X_byte hex_digit_upper_def)
  show "bytes_dump [255] = [''FF'']"
    by (simp add: bytes_dump_map format_02X_byte hex_digit_upper_def)
qed

theorem bytes_dump_tokens_witness:
  "(1::nat) < length [0, 10, 255 :: byte]
   \<and> bytes_dump [0, 10, 255] ! 1 = ''0A''
   \<and> hex_value (bytes_dump [0, 10, 255] ! 1) = Some 10"
  using bytes_dump_tokens [of "[0, 10, 255]", THEN conjunct2, THEN conjunct1, rule_format, of 1]
  by (simp add: hex_digit_upper_def hex_digit_value_def)

section \<open>The shape of a run\<close>

lemma pass_loop_body: "pass (fst (loop_body w)) (snd (loop_body w))"
proof (cases w)
  case (Pair rcv s)
  show ?thesis
  proof (cases rcv)
    case (Recv_raises e)
    with Pair show ?thesis by (simp add: pass.recv_raised)
  next
    case (Datagram p a)
    show ?thesis
    proof (cases s)
      case (Send_returns n)
      with Pair Datagram show ?thesis
        using pass.sent [of "take 16384 p" a n] by simp
    next
      case (Send_raises e)
      with Pair Datagram show ?thesis
        using pass.caught [of "take 16384 p" e a] pass.escaped [of "take 16384 p" e a]
        by (cases "isinstance_Exception e") simp_all
    qed
  qed
qed

lemma pass_hd: "pass seg r \<Longrightarrow> \<exists>q. seg = Call_recvfrom 16384 # q"
  by (erule pass.cases) simp_all

lemma main_loop_hd: "\<exists>q. fst (main_loop ws) = Call_recvfrom 16384 # q"
proof (cases ws)
  case Nil
  then show ?thesis by simp
next
  case (Cons w ws')
  from pass_hd [OF pass_loop_body [of w]] obtain q
    where "fst (loop_body w) = Call_recvfrom 16384 # q" by blast
  with Cons show ?thesis by (simp split: option.splits)
qed

lemma main_loop_segment:
  "i < length (fst (main_loop ws)) \<Longrightarrow>
   \<exists>pre seg post j.
     fst (main_loop ws) = pre @ seg @ post \<and> i = length pre + j \<and> j < length seg \<and>
     ((\<exists>e. pass seg (Some e) \<and> post = [] \<and> snd (main_loop ws) = Terminated e)
      \<or> (\<exists>q. pass seg None \<and> post = Call_recvfrom 16384 # q)
      \<or> (seg = [Call_recvfrom 16384] \<and> post = [] \<and> snd (main_loop ws) = Blocked_in_recvfrom))"
proof (induction ws arbitrary: i)
  case Nil
  then have "i = 0" by simp
  then have "fst (main_loop []) = [] @ [Call_recvfrom 16384] @ [] \<and> i = length ([]::event list) + 0
      \<and> 0 < length [Call_recvfrom 16384]
      \<and> ([Call_recvfrom 16384] = [Call_recvfrom 16384] \<and> ([]::event list) = []
          \<and> snd (main_loop []) = Blocked_in_recvfrom)"
    by simp
  then show ?case by blast
next
  case (Cons w ws)
  let ?t = "fst (loop_body w)"
  have p: "pass ?t (snd (loop_body w))" by (rule pass_loop_body)
  show ?case
  proof (cases "snd (loop_body w)")
    case (Some e)
    with Cons.prems have i: "i < length ?t" by simp
    from Some have "fst (main_loop (w # ws)) = [] @ ?t @ []"
      and "snd (main_loop (w # ws)) = Terminated e" by simp_all
    moreover from p Some have "pass ?t (Some e)" by simp
    ultimately show ?thesis using i
      by (intro exI [of _ "[]"] exI [of _ ?t] exI [of _ i]) simp
  next
    case None
    then have tr: "fst (main_loop (w # ws)) = ?t @ fst (main_loop ws)"
      and st: "snd (main_loop (w # ws)) = snd (main_loop ws)" by simp_all
    from p None have p': "pass ?t None" by simp
    show ?thesis
    proof (cases "i < length ?t")
      case True
      from main_loop_hd [of ws] obtain q where q: "fst (main_loop ws) = Call_recvfrom 16384 # q"
        by blast
      from tr q have "fst (main_loop (w # ws)) = [] @ ?t @ (Call_recvfrom 16384 # q)" by simp
      with p' True show ?thesis
        by (intro exI [of _ "[]"] exI [of _ ?t] exI [of _ "Call_recvfrom 16384 # q"] exI [of _ i])
           simp
    next
      case False
      with Cons.prems tr have "i - length ?t < length (fst (main_loop ws))" by simp
      from Cons.IH [OF this] obtain pre seg post j where
        d: "fst (main_loop ws) = pre @ seg @ post" "i - length ?t = length pre + j"
           "j < length seg"
        and k: "(\<exists>e. pass seg (Some e) \<and> post = [] \<and> snd (main_loop ws) = Terminated e)
           \<or> (\<exists>q. pass seg None \<and> post = Call_recvfrom 16384 # q)
           \<or> (seg = [Call_recvfrom 16384] \<and> post = [] \<and> snd (main_loop ws) = Blocked_in_recvfrom)"
        by blast
      from tr d(1) have "fst (main_loop (w # ws)) = (?t @ pre) @ seg @ post" by simp
      moreover from False d(2) have "i = length (?t @ pre) + j" by simp
      ultimately show ?thesis using d(3) k st
        by (intro exI [of _ "?t @ pre"] exI [of _ seg] exI [of _ post] exI [of _ j]) simp
    qed
  qed
qed

lemma program_failed_socket:
  "socket_raises w = Some e \<Longrightarrow> program w = ([Call_socket AF_INET SOCK_DGRAM], Terminated e)"
  by (simp add: program_def)

lemma program_failed_bind:
  "socket_raises w = None \<Longrightarrow> bind_raises w = Some e \<Longrightarrow>
   program w = ([Call_socket AF_INET SOCK_DGRAM, Call_bind (UDP_IP, UDP_PORT)], Terminated e)"
  by (simp add: program_def)

lemma program_started:
  "socket_raises w = None \<Longrightarrow> bind_raises w = None \<Longrightarrow>
   program w = ([Call_socket AF_INET SOCK_DGRAM, Call_bind (UDP_IP, UDP_PORT)]
                  @ fst (main_loop (iterations w)), snd (main_loop (iterations w)))"
  by (simp add: program_def)

lemma program_at:
  assumes "i < length (fst (program w))"
  obtains
    (socket_failed) e where
      "fst (program w) = [Call_socket AF_INET SOCK_DGRAM]" "i = 0"
      "snd (program w) = Terminated e" "socket_raises w = Some e"
  | (bind_failed) e where
      "fst (program w) = [Call_socket AF_INET SOCK_DGRAM, Call_bind (UDP_IP, UDP_PORT)]"
      "i < 2" "snd (program w) = Terminated e"
      "socket_raises w = None" "bind_raises w = Some e"
  | (startup) q where
      "fst (program w) =
         Call_socket AF_INET SOCK_DGRAM # Call_bind (UDP_IP, UDP_PORT) # Call_recvfrom 16384 # q"
      "i < 2"
  | (recv_raised) pre j e where
      "fst (program w) = pre @ [Call_recvfrom 16384, Recvfrom_raised e]"
      "i = length pre + j" "j < 2" "2 \<le> length pre" "snd (program w) = Terminated e"
  | (sent) pre j d a n q where
      "fst (program w) =
         pre @ [Call_recvfrom 16384, Recvfrom_returned d a,
                Print_received d a (length d) (bytes_dump d), Print_echoing a, Call_sleep 1,
                Call_sendto d a, Sendto_returned n] @ Call_recvfrom 16384 # q"
      "i = length pre + j" "j < 7" "2 \<le> length pre" "length d \<le> 16384"
  | (caught) pre j d a e q where
      "fst (program w) =
         pre @ [Call_recvfrom 16384, Recvfrom_returned d a,
                Print_received d a (length d) (bytes_dump d), Print_echoing a, Call_sleep 1,
                Call_sendto d a, Sendto_raised e, Print_echo_failed (str_of e)]
             @ Call_recvfrom 16384 # q"
      "i = length pre + j" "j < 8" "2 \<le> length pre" "length d \<le> 16384"
      "isinstance_Exception e"
  | (escaped) pre j d a e where
      "fst (program w) =
         pre @ [Call_recvfrom 16384, Recvfrom_returned d a,
                Print_received d a (length d) (bytes_dump d), Print_echoing a, Call_sleep 1,
                Call_sendto d a, Sendto_raised e]"
      "i = length pre + j" "j < 7" "2 \<le> length pre" "length d \<le> 16384"
      "\<not> isinstance_Exception e"
      "snd (program w) = Terminated e"
  | (blocked) pre where
      "fst (program w) = pre @ [Call_recvfrom 16384]" "i = length pre" "2 \<le> length pre"
      "snd (program w) = Blocked_in_recvfrom"
proof (cases "socket_raises w")
  case (Some e)
  with assms program_failed_socket [OF Some] show ?thesis
    by (intro socket_failed [of e]) simp_all
next
  case None
  note sock = this
  show ?thesis
  proof (cases "bind_raises w")
    case (Some e)
    with assms program_failed_bind [OF sock Some] sock show ?thesis
      by (intro bind_failed [of e]) simp_all
  next
    case None
    let ?s = "[Call_socket AF_INET SOCK_DGRAM, Call_bind (UDP_IP, UDP_PORT)]"
    let ?m = "fst (main_loop (iterations w))"
    have tr: "fst (program w) = ?s @ ?m"
      and st: "snd (program w) = snd (main_loop (iterations w))"
      using program_started [OF sock None] by simp_all
    show ?thesis
    proof (cases "i < 2")
      case True
      from main_loop_hd [of "iterations w"] obtain q where "?m = Call_recvfrom 16384 # q"
        by blast
      with tr True show ?thesis by (intro startup [of q]) simp_all
    next
      case False
      with assms tr have "i - 2 < length ?m" by simp
      from main_loop_segment [OF this] obtain pre seg post j where
        d: "?m = pre @ seg @ post" "i - 2 = length pre + j" "j < length seg"
        and k: "(\<exists>e. pass seg (Some e) \<and> post = [] \<and> snd (main_loop (iterations w)) = Terminated e)
           \<or> (\<exists>q. pass seg None \<and> post = Call_recvfrom 16384 # q)
           \<or> (seg = [Call_recvfrom 16384] \<and> post = []
               \<and> snd (main_loop (iterations w)) = Blocked_in_recvfrom)"
        by blast
      from tr d(1) have tr': "fst (program w) = (?s @ pre) @ seg @ post" by simp
      from False d(2) have i: "i = length (?s @ pre) + j" by simp
      from k consider
          (ended) e where "pass seg (Some e)" "post = []" "snd (program w) = Terminated e"
        | (cont) q where "pass seg None" "post = Call_recvfrom 16384 # q"
        | (wait) "seg = [Call_recvfrom 16384]" "post = []" "snd (program w) = Blocked_in_recvfrom"
        using st by auto
      then show ?thesis
      proof cases
        case ended
        from ended(1) show ?thesis
        proof cases
          case recv_raised
          with tr' i d(3) ended show ?thesis
            by (intro that(4) [of "?s @ pre" e j]) simp_all
        next
          case (escaped dd aa)
          with tr' i d(3) ended show ?thesis
            by (intro that(7) [of "?s @ pre" dd aa e j]) simp_all
        qed
      next
        case cont
        from cont(1) show ?thesis
        proof cases
          case (sent dd aa n)
          with tr' i d(3) cont show ?thesis
            by (intro that(5) [of "?s @ pre" dd aa n q j]) simp_all
        next
          case (caught dd e aa)
          with tr' i d(3) cont show ?thesis
            by (intro that(6) [of "?s @ pre" dd aa e q j]) simp_all
        qed
      next
        case wait
        with tr' i d(3) show ?thesis
          by (intro blocked [of "?s @ pre"]) simp_all
      qed
    qed
  qed
qed

lemma below_2: "j < (2::nat) \<Longrightarrow> j = 0 \<or> j = 1"
  by arith

lemma below_7: "j < (7::nat) \<Longrightarrow> j = 0 \<or> j = 1 \<or> j = 2 \<or> j = 3 \<or> j = 4 \<or> j = 5 \<or> j = 6"
  by arith

lemma below_8:
  "j < (8::nat) \<Longrightarrow> j = 0 \<or> j = 1 \<or> j = 2 \<or> j = 3 \<or> j = 4 \<or> j = 5 \<or> j = 6 \<or> j = 7"
  by arith

lemma between_4:
  "(\<forall>j::nat. i < j \<and> j < i + 4 \<longrightarrow> P j) \<longleftrightarrow> P (i + 1) \<and> P (i + 2) \<and> P (i + 3)"
proof
  assume "\<forall>j. i < j \<and> j < i + 4 \<longrightarrow> P j"
  then show "P (i + 1) \<and> P (i + 2) \<and> P (i + 3)" by simp
next
  assume r: "P (i + 1) \<and> P (i + 2) \<and> P (i + 3)"
  show "\<forall>j. i < j \<and> j < i + 4 \<longrightarrow> P j"
  proof (intro allI impI)
    fix j assume "i < j \<and> j < i + 4"
    then have "j = i + 1 \<or> j = i + 2 \<or> j = i + 3" by arith
    with r show "P j" by blast
  qed
qed

lemma loop_body_datagram:
  "loop_body (Datagram p a, s) =
     ([Call_recvfrom 16384, Recvfrom_returned (take 16384 p) a,
       Print_received (take 16384 p) a (length (take 16384 p)) (bytes_dump (take 16384 p)),
       Print_echoing a, Call_sleep 1] @ fst (try_sendto (take 16384 p) a s),
      snd (try_sendto (take 16384 p) a s))"
  by simp

lemma try_sendto_hd: "\<exists>q. fst (try_sendto d a s) = Call_sendto d a # q"
  by (cases s) simp_all

lemma loop_body_continues:
  assumes "\<forall>e. fst it \<noteq> Recv_raises e"
    and "\<forall>e. snd it = Send_raises e \<longrightarrow> isinstance_Exception e"
  shows "snd (loop_body it) = None"
proof (cases it)
  case (Pair rcv s)
  with assms obtain p a where rcv: "rcv = Datagram p a" by (cases rcv) auto
  from assms Pair show ?thesis by (cases s) (simp_all add: rcv)
qed

lemma main_loop_blocked:
  assumes "\<forall>it \<in> set ws. (\<forall>e. fst it \<noteq> Recv_raises e)
             \<and> (\<forall>e. snd it = Send_raises e \<longrightarrow> isinstance_Exception e)"
  shows "snd (main_loop ws) = Blocked_in_recvfrom"
  using assms
proof (induction ws)
  case Nil
  show ?case by simp
next
  case (Cons it ws)
  then have "snd (loop_body it) = None" by (intro loop_body_continues) simp_all
  with Cons show ?case by simp
qed

section \<open>The example runs\<close>

lemmas run_simps =
  program_def UDP_IP_def UDP_PORT_def bytes_dump_map format_02X_byte hex_digit_upper_def
  client_def refused_def keyboard_interrupt_def

lemma failing_world_run:
  "program failing_world =
     ([Call_socket AF_INET SOCK_DGRAM, Call_bind (''127.0.0.1'', 3400),
       Call_recvfrom 16384, Recvfrom_returned [10] client,
       Print_received [10] client 1 [''0A''], Print_echoing client, Call_sleep 1,
       Call_sendto [10] client, Sendto_raised refused,
       Print_echo_failed ''[Errno 111] Connection refused'',
       Call_recvfrom 16384, Recvfrom_returned [] client,
       Print_received [] client 0 [], Print_echoing client, Call_sleep 1,
       Call_sendto [] client, Sendto_returned 0,
       Call_recvfrom 16384],
      Blocked_in_recvfrom)"
  by (simp add: failing_world_def run_simps)

lemma interrupted_world_run:
  "program interrupted_world =
     ([Call_socket AF_INET SOCK_DGRAM, Call_bind (''127.0.0.1'', 3400),
       Call_recvfrom 16384, Recvfrom_returned [104, 105] client,
       Print_received [104, 105] client 2 [''68'', ''69''], Print_echoing client, Call_sleep 1,
       Call_sendto [104, 105] client, Sendto_raised keyboard_interrupt],
      Terminated keyboard_interrupt)"
  by (simp add: interrupted_world_def run_simps)

lemma deaf_world_run:
  "program deaf_world =
     ([Call_socket AF_INET SOCK_DGRAM, Call_bind (''127.0.0.1'', 3400),
       Call_recvfrom 16384, Recvfrom_raised refused],
      Terminated refused)"
  by (simp add: deaf_world_def run_simps)

lemma port_taken_world_run:
  "program port_taken_world =
     ([Call_socket AF_INET SOCK_DGRAM, Call_bind (''127.0.0.1'', 3400)],
      Terminated (Exception_instance ''OSError'' ''[Errno 98] Address already in use''))"
  by (simp add: port_taken_world_def run_simps)

section \<open>The claims about the loop\<close>

text \<open>
  Claim C1.  Whatever \<open>recvfrom\<close> returns in an iteration is what that iteration
  passes to \<open>sendto\<close>: the event four places after a return of \<open>recvfrom\<close> with
  bytes \<open>d\<close> and sender \<open>a\<close> is the call \<open>sendto(d, a)\<close>, with the same bytes
  and the same address, and no other receive or send lies between the two; conversely
  every call of \<open>sendto\<close> carries the bytes and the sender returned four places
  before it.  A datagram of at most 16384 bytes is returned, and so sent back, whole.
\<close>

theorem echo_same_bytes_same_address:
  assumes "i < length (fst (program w))"
  shows "(\<forall>d a. fst (program w) ! i = Recvfrom_returned d a \<longrightarrow>
            i + 4 < length (fst (program w))
            \<and> fst (program w) ! (i + 4) = Call_sendto d a
            \<and> (\<forall>j. i < j \<and> j < i + 4 \<longrightarrow>
                  (\<forall>d' a'. fst (program w) ! j \<noteq> Recvfrom_returned d' a'
                          \<and> fst (program w) ! j \<noteq> Call_sendto d' a')))
       \<and> (\<forall>d a. fst (program w) ! i = Call_sendto d a \<longrightarrow>
            4 \<le> i \<and> fst (program w) ! (i - 4) = Recvfrom_returned d a)
       \<and> (\<forall>p sender s. length p \<le> 16384 \<longrightarrow>
            fst (loop_body (Datagram p sender, s)) ! 1 = Recvfrom_returned p sender
            \<and> fst (loop_body (Datagram p sender, s)) ! 5 = Call_sendto p sender)"
proof (intro conjI)
  show "\<forall>p sender s. length p \<le> 16384 \<longrightarrow>
            fst (loop_body (Datagram p sender, s)) ! 1 = Recvfrom_returned p sender
            \<and> fst (loop_body (Datagram p sender, s)) ! 5 = Call_sendto p sender"
  proof (intro allI impI)
    fix p :: "byte list" and sender :: address and s
    assume "length p \<le> 16384"
    then have t: "take 16384 p = p" by simp
    from try_sendto_hd [of p sender s] obtain q
      where "fst (try_sendto p sender s) = Call_sendto p sender # q" by blast
    then show "fst (loop_body (Datagram p sender, s)) ! 1 = Recvfrom_returned p sender
            \<and> fst (loop_body (Datagram p sender, s)) ! 5 = Call_sendto p sender"
      by (simp add: loop_body_datagram t del: loop_body.simps)
  qed
next
  show "\<forall>d a. fst (program w) ! i = Call_sendto d a \<longrightarrow>
            4 \<le> i \<and> fst (program w) ! (i - 4) = Recvfrom_returned d a"
    using assms
  proof (cases rule: program_at)
    case (socket_failed e)
    then show ?thesis by simp
  next
    case (bind_failed e)
    from below_2 [OF bind_failed(2)] show ?thesis
      by (elim disjE) (simp_all add: bind_failed(1))
  next
    case (startup q)
    from below_2 [OF startup(2)] show ?thesis
      by (elim disjE) (simp_all add: startup(1))
  next
    case (recv_raised pre j e)
    from below_2 [OF recv_raised(3)] show ?thesis
      by (elim disjE) (simp_all add: recv_raised(1,2) nth_append)
  next
    case (sent pre j d a n q)
    from below_7 [OF sent(3)] show ?thesis
      by (elim disjE) (simp_all add: sent(1,2) nth_append)
  next
    case (caught pre j d a e q)
    from below_8 [OF caught(3)] show ?thesis
      by (elim disjE) (simp_all add: caught(1,2) nth_append)
  next
    case (escaped pre j d a e)
    from below_7 [OF escaped(3)] show ?thesis
      by (elim disjE) (simp_all add: escaped(1,2) nth_append)
  next
    case (blocked pre)
    then show ?thesis by simp
  qed
next
  let ?quiet = "\<lambda>j. \<forall>d' a'. fst (program w) ! j \<noteq> Recvfrom_returned d' a'
                          \<and> fst (program w) ! j \<noteq> Call_sendto d' a'"
  have "\<forall>d a. fst (program w) ! i = Recvfrom_returned d a \<longrightarrow>
            i + 4 < length (fst (program w))
            \<and> fst (program w) ! (i + 4) = Call_sendto d a
            \<and> ?quiet (i + 1) \<and> ?quiet (i + 2) \<and> ?quiet (i + 3)"
    using assms
  proof (cases rule: program_at)
    case (socket_failed e)
    then show ?thesis by simp
  next
    case (bind_failed e)
    from below_2 [OF bind_failed(2)] show ?thesis
      by (elim disjE) (simp_all add: bind_failed(1))
  next
    case (startup q)
    from below_2 [OF startup(2)] show ?thesis
      by (elim disjE) (simp_all add: startup(1))
  next
    case (recv_raised pre j e)
    from below_2 [OF recv_raised(3)] show ?thesis
      by (elim disjE) (simp_all add: recv_raised(1,2) nth_append)
  next
    case (sent pre j d a n q)
    from below_7 [OF sent(3)] show ?thesis
      by (elim disjE) (simp_all add: sent(1,2) nth_append)
  next
    case (caught pre j d a e q)
    from below_8 [OF caught(3)] show ?thesis
      by (elim disjE) (simp_all add: caught(1,2) nth_append)
  next
    case (escaped pre j d a e)
    from below_7 [OF escaped(3)] show ?thesis
      by (elim disjE) (simp_all add: escaped(1,2) nth_append)
  next
    case (blocked pre)
    then show ?thesis by simp
  qed
  then show "\<forall>d a. fst (program w) ! i = Recvfrom_returned d a \<longrightarrow>
            i + 4 < length (fst (program w))
            \<and> fst (program w) ! (i + 4) = Call_sendto d a
            \<and> (\<forall>j. i < j \<and> j < i + 4 \<longrightarrow>
                  (\<forall>d' a'. fst (program w) ! j \<noteq> Recvfrom_returned d' a'
                          \<and> fst (program w) ! j \<noteq> Call_sendto d' a'))"
    unfolding between_4 [of i ?quiet] .
qed

theorem echo_same_bytes_same_address_witness:
  "3 < length (fst (program failing_world))
   \<and> fst (program failing_world) ! 3 = Recvfrom_returned [10] client
   \<and> fst (program failing_world) ! 7 = Call_sendto [10] client"
proof -
  have h: "3 < length (fst (program failing_world))"
    by (simp add: failing_world_run)
  have r: "fst (program failing_world) ! 3 = Recvfrom_returned [10] client"
    by (simp add: failing_world_run)
  from echo_same_bytes_same_address [OF h, THEN conjunct1, rule_format, OF r] h r
  show ?thesis by simp
qed

text \<open>
  Claim C3, as stated, fails: not every raise of \<open>sendto\<close> is caught.  In the run
  below the first send raises \<open>KeyboardInterrupt\<close>; the raise is the ninth and last
  event, no line about a failure is printed, no further \<open>recvfrom\<close> is called although
  a second datagram is on its way, and the program is ended with that exception.
\<close>

theorem send_raise_ends_the_process:
  "fst (program interrupted_world) ! 8 = Sendto_raised keyboard_interrupt
   \<and> length (fst (program interrupted_world)) = 9
   \<and> Print_echo_failed (str_of keyboard_interrupt) \<notin> set (fst (program interrupted_world))
   \<and> snd (program interrupted_world) = Terminated keyboard_interrupt
   \<and> iterations interrupted_world ! 1 = (Datagram [] client, Send_returns 0)"
  by (simp add: interrupted_world_run) (simp add: interrupted_world_def)

text \<open>
  Claim C3, amended.  If the send of an iteration fails by raising an exception that is
  an instance of \<open>Exception\<close>, as every error of the socket layer is, the error is
  caught at the send: the event after the raise is the line \<open>echo failed with ...\<close>
  carrying \<open>str(e)\<close>, and the one after that is the next call of \<open>recvfrom\<close>, so the
  send is not tried again and the loop goes on.  Such a failure never ends the program:
  if the socket is bound and nothing goes wrong in the world but such failed sends, then
  after any number of iterations the program is waiting in \<open>recvfrom\<close>.
\<close>

theorem send_failure_logged_and_loop_continues:
  "(\<forall>i e. i < length (fst (program w)) \<and> fst (program w) ! i = Sendto_raised e
            \<and> isinstance_Exception e \<longrightarrow>
        1 \<le> i \<and> i + 2 < length (fst (program w))
        \<and> (\<exists>d a. fst (program w) ! (i - 1) = Call_sendto d a)
        \<and> fst (program w) ! (i + 1) = Print_echo_failed (str_of e)
        \<and> fst (program w) ! (i + 2) = Call_recvfrom 16384)
   \<and> (socket_raises w = None \<and> bind_raises w = None
        \<and> (\<forall>it \<in> set (iterations w). (\<forall>e. fst it \<noteq> Recv_raises e)
              \<and> (\<forall>e. snd it = Send_raises e \<longrightarrow> isinstance_Exception e)) \<longrightarrow>
        snd (program w) = Blocked_in_recvfrom)"
proof (intro conjI allI impI)
  assume "socket_raises w = None \<and> bind_raises w = None
        \<and> (\<forall>it \<in> set (iterations w). (\<forall>e. fst it \<noteq> Recv_raises e)
              \<and> (\<forall>e. snd it = Send_raises e \<longrightarrow> isinstance_Exception e))"
  then show "snd (program w) = Blocked_in_recvfrom"
    using main_loop_blocked [of "iterations w"] by (simp add: program_started)
next
  fix i e
  assume a: "i < length (fst (program w)) \<and> fst (program w) ! i = Sendto_raised e
            \<and> isinstance_Exception e"
  then have "i < length (fst (program w))" by simp
  then have "fst (program w) ! i = Sendto_raised e \<and> isinstance_Exception e \<longrightarrow>
        1 \<le> i \<and> i + 2 < length (fst (program w))
        \<and> (\<exists>d a. fst (program w) ! (i - 1) = Call_sendto d a)
        \<and> fst (program w) ! (i + 1) = Print_echo_failed (str_of e)
        \<and> fst (program w) ! (i + 2) = Call_recvfrom 16384"
  proof (cases rule: program_at)
    case (socket_failed e')
    then show ?thesis by simp
  next
    case (bind_failed e')
    from below_2 [OF bind_failed(2)] show ?thesis
      by (elim disjE) (simp_all add: bind_failed(1))
  next
    case (startup q)
    from below_2 [OF startup(2)] show ?thesis
      by (elim disjE) (simp_all add: startup(1))
  next
    case (recv_raised pre j e')
    from below_2 [OF recv_raised(3)] show ?thesis
      by (elim disjE) (simp_all add: recv_raised(1,2) nth_append)
  next
    case (sent pre j d a n q)
    from below_7 [OF sent(3)] show ?thesis
      by (elim disjE) (simp_all add: sent(1,2) nth_append)
  next
    case (caught pre j d a e' q)
    from below_8 [OF caught(3)] show ?thesis
      by (elim disjE) (simp_all add: caught(1,2) nth_append)
  next
    case (escaped pre j d a e')
    from below_7 [OF escaped(3)] escaped(6) show ?thesis
      by (elim disjE) (auto simp add: escaped(1,2) nth_append)
  next
    case (blocked pre)
    then show ?thesis by simp
  qed
  with a show "1 \<le> i" and "i + 2 < length (fst (program w))"
    and "\<exists>d a. fst (program w) ! (i - 1) = Call_sendto d a"
    and "fst (program w) ! (i + 1) = Print_echo_failed (str_of e)"
    and "fst (program w) ! (i + 2) = Call_recvfrom 16384"
    by simp_all
qed

theorem send_failure_logged_and_loop_continues_witness:
  "8 < length (fst (program failing_world))
   \<and> fst (program failing_world) ! 8 = Sendto_raised refused
   \<and> isinstance_Exception refused
   \<and> fst (program failing_world) ! 9 = Print_echo_failed (str_of refused)
   \<and> fst (program failing_world) ! 10 = Call_recvfrom 16384"
proof -
  have h: "8 < length (fst (program failing_world))
      \<and> fst (program failing_world) ! 8 = Sendto_raised refused
      \<and> isinstance_Exception refused"
    by (simp add: failing_world_run) (simp add: refused_def)
  from send_failure_logged_and_loop_continues
         [of failing_world, THEN conjunct1, rule_format, OF h] h
  show ?thesis by simp
qed

text \<open>
  Claim C4.  The steps of an iteration come in one order.  A return of \<open>recvfrom\<close> is
  preceded by its call and followed, in this order, by the record of the datagram, the
  line naming the destination, the sleep of one second and the call of \<open>sendto\<close>;
  and every call of \<open>sendto\<close> has the sleep of one second immediately before it, the
  announcement before that, the record before that, and the receive before that.
\<close>

theorem iteration_order:
  assumes "i < length (fst (program w))"
  shows "(\<forall>d a. fst (program w) ! i = Recvfrom_returned d a \<longrightarrow>
            1 \<le> i \<and> i + 4 < length (fst (program w))
            \<and> fst (program w) ! (i - 1) = Call_recvfrom 16384
            \<and> fst (program w) ! (i + 1) = Print_received d a (length d) (bytes_dump d)
            \<and> fst (program w) ! (i + 2) = Print_echoing a
            \<and> fst (program w) ! (i + 3) = Call_sleep 1
            \<and> fst (program w) ! (i + 4) = Call_sendto d a)
       \<and> (\<forall>d a. fst (program w) ! i = Call_sendto d a \<longrightarrow>
            5 \<le> i
            \<and> fst (program w) ! (i - 5) = Call_recvfrom 16384
            \<and> fst (program w) ! (i - 4) = Recvfrom_returned d a
            \<and> fst (program w) ! (i - 3) = Print_received d a (length d) (bytes_dump d)
            \<and> fst (program w) ! (i - 2) = Print_echoing a
            \<and> fst (program w) ! (i - 1) = Call_sleep 1)"
  using assms
proof (cases rule: program_at)
  case (socket_failed e)
  then show ?thesis by simp
next
  case (bind_failed e)
  from below_2 [OF bind_failed(2)] show ?thesis
    by (elim disjE) (simp_all add: bind_failed(1))
next
  case (startup q)
  from below_2 [OF startup(2)] show ?thesis
    by (elim disjE) (simp_all add: startup(1))
next
  case (recv_raised pre j e)
  from below_2 [OF recv_raised(3)] show ?thesis
    by (elim disjE) (simp_all add: recv_raised(1,2) nth_append)
next
  case (sent pre j d a n q)
  from below_7 [OF sent(3)] show ?thesis
    by (elim disjE) (simp_all add: sent(1,2) nth_append)
next
  case (caught pre j d a e q)
  from below_8 [OF caught(3)] show ?thesis
    by (elim disjE) (simp_all add: caught(1,2) nth_append)
next
  case (escaped pre j d a e)
  from below_7 [OF escaped(3)] show ?thesis
    by (elim disjE) (simp_all add: escaped(1,2) nth_append)
next
  case (blocked pre)
  then show ?thesis by simp
qed

theorem iteration_order_witness:
  "7 < length (fst (program failing_world))
   \<and> fst (program failing_world) ! 7 = Call_sendto [10] client
   \<and> fst (program failing_world) ! 2 = Call_recvfrom 16384
   \<and> fst (program failing_world) ! 3 = Recvfrom_returned [10] client
   \<and> fst (program failing_world) ! 4 = Print_received [10] client 1 [''0A'']
   \<and> fst (program failing_world) ! 5 = Print_echoing client
   \<and> fst (program failing_world) ! 6 = Call_sleep 1"
proof -
  have h: "7 < length (fst (program failing_world))"
    by (simp add: failing_world_run)
  have s: "fst (program failing_world) ! 7 = Call_sendto [10] client"
    by (simp add: failing_world_run)
  from iteration_order [OF h, THEN conjunct2, rule_format, OF s] h s
  show ?thesis
    by (simp add: bytes_dump_map format_02X_byte hex_digit_upper_def)
qed

text \<open>
  Claim C6.  An exception raised by \<open>recvfrom\<close>, of whatever class, leaves the body
  and the loop: the raise is the last event of the run, it follows the call of
  \<open>recvfrom\<close> directly, the program is ended with that exception, and the iterations
  that the world still had in store do not happen.
\<close>

theorem receive_error_propagates:
  "(\<forall>s. loop_body (Recv_raises e, s) = ([Call_recvfrom 16384, Recvfrom_raised e], Some e))
   \<and> (\<forall>s rest. main_loop ((Recv_raises e, s) # rest) =
         ([Call_recvfrom 16384, Recvfrom_raised e], Terminated e))
   \<and> (\<forall>i. i < length (fst (program w)) \<and> fst (program w) ! i = Recvfrom_raised e \<longrightarrow>
         1 \<le> i \<and> fst (program w) ! (i - 1) = Call_recvfrom 16384
         \<and> Suc i = length (fst (program w)) \<and> snd (program w) = Terminated e)"
proof (intro conjI allI impI)
  fix s show "loop_body (Recv_raises e, s) = ([Call_recvfrom 16384, Recvfrom_raised e], Some e)"
    by simp
next
  fix s rest
  show "main_loop ((Recv_raises e, s) # rest) =
         ([Call_recvfrom 16384, Recvfrom_raised e], Terminated e)"
    by simp
next
  fix i
  assume a: "i < length (fst (program w)) \<and> fst (program w) ! i = Recvfrom_raised e"
  then have "i < length (fst (program w))" by simp
  then have "fst (program w) ! i = Recvfrom_raised e \<longrightarrow>
         1 \<le> i \<and> fst (program w) ! (i - 1) = Call_recvfrom 16384
         \<and> Suc i = length (fst (program w)) \<and> snd (program w) = Terminated e"
  proof (cases rule: program_at)
    case (socket_failed e')
    then show ?thesis by simp
  next
    case (bind_failed e')
    from below_2 [OF bind_failed(2)] show ?thesis
      by (elim disjE) (simp_all add: bind_failed(1))
  next
    case (startup q)
    from below_2 [OF startup(2)] show ?thesis
      by (elim disjE) (simp_all add: startup(1))
  next
    case (recv_raised pre j e')
    from below_2 [OF recv_raised(3)] show ?thesis
      by (elim disjE) (auto simp add: recv_raised(1,2,5) nth_append)
  next
    case (sent pre j d a n q)
    from below_7 [OF sent(3)] show ?thesis
      by (elim disjE) (simp_all add: sent(1,2) nth_append)
  next
    case (caught pre j d a e' q)
    from below_8 [OF caught(3)] show ?thesis
      by (elim disjE) (simp_all add: caught(1,2) nth_append)
  next
    case (escaped pre j d a e')
    from below_7 [OF escaped(3)] show ?thesis
      by (elim disjE) (simp_all add: escaped(1,2) nth_append)
  next
    case (blocked pre)
    then show ?thesis by simp
  qed
  with a show "1 \<le> i" and "fst (program w) ! (i - 1) = Call_recvfrom 16384"
    and "Suc i = length (fst (program w))" and "snd (program w) = Terminated e"
    by simp_all
qed

theorem receive_error_propagates_witness:
  "3 < length (fst (program deaf_world))
   \<and> fst (program deaf_world) ! 3 = Recvfrom_raised refused
   \<and> Suc 3 = length (fst (program deaf_world))
   \<and> snd (program deaf_world) = Terminated refused"
proof -
  have h: "3 < length (fst (program deaf_world))
      \<and> fst (program deaf_world) ! 3 = Recvfrom_raised refused"
    by (simp add: deaf_world_run)
  from receive_error_propagates
         [of refused deaf_world, THEN conjunct2, THEN conjunct2, rule_format, OF h] h
  show ?thesis by simp
qed

text \<open>
  Claim C8.  Every call of \<open>recvfrom\<close> in a run asks for at most 16384 bytes, so the
  bytes it returns, which are the bytes logged and sent back, are at most 16384.
\<close>

theorem recvfrom_at_most_16384:
  assumes "i < length (fst (program w))"
  shows "(\<forall>n. fst (program w) ! i = Call_recvfrom n \<longrightarrow> n = 16384)
       \<and> (\<forall>d a. fst (program w) ! i = Recvfrom_returned d a \<longrightarrow> length d \<le> 16384)
       \<and> (\<forall>d a. fst (program w) ! i = Call_sendto d a \<longrightarrow> length d \<le> 16384)"
  using assms
proof (cases rule: program_at)
  case (socket_failed e)
  then show ?thesis by simp
next
  case (bind_failed e)
  from below_2 [OF bind_failed(2)] show ?thesis
    by (elim disjE) (simp_all add: bind_failed(1))
next
  case (startup q)
  from below_2 [OF startup(2)] show ?thesis
    by (elim disjE) (simp_all add: startup(1))
next
  case (recv_raised pre j e)
  from below_2 [OF recv_raised(3)] show ?thesis
    by (elim disjE) (simp_all add: recv_raised(1,2) nth_append)
next
  case (sent pre j d a n q)
  from below_7 [OF sent(3)] show ?thesis
    by (elim disjE) (simp_all add: sent(1,2,5) nth_append)
next
  case (caught pre j d a e q)
  from below_8 [OF caught(3)] show ?thesis
    by (elim disjE) (simp_all add: caught(1,2,5) nth_append)
next
  case (escaped pre j d a e)
  from below_7 [OF escaped(3)] show ?thesis
    by (elim disjE) (simp_all add: escaped(1,2,5) nth_append)
next
  case (blocked pre)
  then show ?thesis by simp
qed

theorem recvfrom_at_most_16384_witness:
  "3 < length (fst (program failing_world))
   \<and> fst (program failing_world) ! 3 = Recvfrom_returned [10] client
   \<and> length [10 :: byte] \<le> 16384"
proof -
  have h: "3 < length (fst (program failing_world))"
    by (simp add: failing_world_run)
  have r: "fst (program failing_world) ! 3 = Recvfrom_returned [10] client"
    by (simp add: failing_world_run)
  from recvfrom_at_most_16384 [OF h, THEN conjunct2, THEN conjunct1, rule_format, OF r] h r
  show ?thesis by simp
qed

text \<open>
  Claim C9, as stated, fails: \<open>except Exception\<close> does not match every exception.
  When \<open>sendto\<close> raises \<open>KeyboardInterrupt\<close>, which derives from
  \<open>BaseException\<close> only, the exception leaves the body and ends the program.
\<close>

theorem except_Exception_misses_KeyboardInterrupt:
  "snd (loop_body (Datagram [104, 105] (''127.0.0.1'', 50000),
                    Send_raises (BaseException_only ''KeyboardInterrupt'' [])))
     = Some (BaseException_only ''KeyboardInterrupt'' [])
   \<and> snd (program interrupted_world) = Terminated keyboard_interrupt
   \<and> last (fst (program interrupted_world)) = Sendto_raised keyboard_interrupt"
  by (simp add: interrupted_world_run keyboard_interrupt_def)

text \<open>
  Claim C9, amended.  The handler catches every exception raised by the send that is an
  instance of \<open>Exception\<close>, of the socket layer or not: after such a raise the run
  goes on with the line of the handler, and no exception leaves the body.  An exception
  that is not an instance of \<open>Exception\<close> is not caught: its raise is the last event
  and the program is ended with it.
\<close>

theorem except_Exception_scope:
  "(\<forall>i. i < length (fst (program w)) \<and> fst (program w) ! i = Sendto_raised e \<longrightarrow>
       (if isinstance_Exception e
        then Suc i < length (fst (program w))
             \<and> fst (program w) ! Suc i = Print_echo_failed (str_of e)
        else Suc i = length (fst (program w)) \<and> snd (program w) = Terminated e))
   \<and> (\<forall>p a. snd (loop_body (Datagram p a, Send_raises e)) =
         (if isinstance_Exception e then None else Some e))"
proof (intro conjI allI impI)
  fix p a
  show "snd (loop_body (Datagram p a, Send_raises e)) =
         (if isinstance_Exception e then None else Some e)"
    by simp
next
  fix i
  assume a: "i < length (fst (program w)) \<and> fst (program w) ! i = Sendto_raised e"
  then have "i < length (fst (program w))" by simp
  then have "fst (program w) ! i = Sendto_raised e \<longrightarrow>
       (if isinstance_Exception e
        then Suc i < length (fst (program w))
             \<and> fst (program w) ! Suc i = Print_echo_failed (str_of e)
        else Suc i = length (fst (program w)) \<and> snd (program w) = Terminated e)"
  proof (cases rule: program_at)
    case (socket_failed e')
    then show ?thesis by simp
  next
    case (bind_failed e')
    from below_2 [OF bind_failed(2)] show ?thesis
      by (elim disjE) (simp_all add: bind_failed(1))
  next
    case (startup q)
    from below_2 [OF startup(2)] show ?thesis
      by (elim disjE) (simp_all add: startup(1))
  next
    case (recv_raised pre j e')
    from below_2 [OF recv_raised(3)] show ?thesis
      by (elim disjE) (simp_all add: recv_raised(1,2) nth_append)
  next
    case (sent pre j d a n q)
    from below_7 [OF sent(3)] show ?thesis
      by (elim disjE) (simp_all add: sent(1,2) nth_append)
  next
    case (caught pre j d a e' q)
    from below_8 [OF caught(3)] caught(6) show ?thesis
      by (elim disjE) (auto simp add: caught(1,2) nth_append)
  next
    case (escaped pre j d a e')
    from below_7 [OF escaped(3)] escaped(6) show ?thesis
      by (elim disjE) (auto simp add: escaped(1,2,7) nth_append)
  next
    case (blocked pre)
    then show ?thesis by simp
  qed
  with a show "if isinstance_Exception e
        then Suc i < length (fst (program w))
             \<and> fst (program w) ! Suc i = Print_echo_failed (str_of e)
        else Suc i = length (fst (program w)) \<and> snd (program w) = Terminated e"
    by simp
qed

theorem except_Exception_scope_witness:
  "8 < length (fst (program failing_world))
   \<and> fst (program failing_world) ! 8 = Sendto_raised refused
   \<and> isinstance_Exception refused
   \<and> Suc 8 < length (fst (program failing_world))
   \<and> fst (program failing_world) ! Suc 8 = Print_echo_failed (str_of refused)"
proof -
  have h: "8 < length (fst (program failing_world))
      \<and> fst (program failing_world) ! 8 = Sendto_raised refused"
    by (simp add: failing_world_run)
  have e: "isinstance_Exception refused" by (simp add: refused_def)
  from except_Exception_scope
         [of failing_world refused, THEN conjunct1, rule_format, OF h] h e
  show ?thesis by simp
qed

text \<open>
  Claim C5.  A datagram of no bytes is received like any other: \<open>recvfrom\<close> returns
  the empty byte string with the sender's address and raises nothing, the record logs
  the length 0 and the empty hex dump, the echo is announced, and after the sleep the
  empty byte string is sent to the sender; when that send returns, the loop goes on to
  the next iteration.
\<close>

theorem zero_length_datagram_echoed:
  "sock_recvfrom 16384 (Datagram [] a) = Inr ([], a)
   \<and> bytes_dump [] = []
   \<and> (\<exists>q. fst (loop_body (Datagram [] a, s)) =
          [Call_recvfrom 16384, Recvfrom_returned [] a, Print_received [] a 0 [],
           Print_echoing a, Call_sleep 1, Call_sendto [] a] @ q)
   \<and> loop_body (Datagram [] a, Send_returns n) =
          ([Call_recvfrom 16384, Recvfrom_returned [] a, Print_received [] a 0 [],
            Print_echoing a, Call_sleep 1, Call_sendto [] a, Sendto_returned n], None)
   \<and> main_loop ((Datagram [] a, Send_returns n) # rest) =
          ([Call_recvfrom 16384, Recvfrom_returned [] a, Print_received [] a 0 [],
            Print_echoing a, Call_sleep 1, Call_sendto [] a, Sendto_returned n]
             @ fst (main_loop rest),
           snd (main_loop rest))"
proof -
  from try_sendto_hd [of "[]" a s] obtain q
    where "fst (try_sendto [] a s) = Call_sendto [] a # q" by blast
  then show ?thesis by (simp add: bytes_dump_def)
qed

theorem zero_length_datagram_echoed_witness:
  "fst (program failing_world) ! 11 = Recvfrom_returned [] client
   \<and> fst (program failing_world) ! 12 = Print_received [] client 0 []
   \<and> fst (program failing_world) ! 15 = Call_sendto [] client
   \<and> loop_body (Datagram [] client, Send_returns 0) =
          ([Call_recvfrom 16384, Recvfrom_returned [] client, Print_received [] client 0 [],
            Print_echoing client, Call_sleep 1, Call_sendto [] client, Sendto_returned 0], None)"
  using zero_length_datagram_echoed [of client "Send_returns 0" 0 "[]"]
  by (simp add: failing_world_run)

text \<open>
  Claim C7.  Every run begins with the creation of one UDP socket over IPv4, and no
  other socket is created later.  If the creation raises, the program is ended there; if
  the bind to \<open>127.0.0.1\<close>, port 3400, raises, the program is ended there; in both
  cases with the exception raised, and without a single \<open>recvfrom\<close>.  Otherwise the
  loop starts after the bind: the only bind of a run is the second event, to that
  address, and every \<open>recvfrom\<close> comes after it.
\<close>

theorem startup_socket_and_bind:
  "fst (program w) \<noteq> [] \<and> fst (program w) ! 0 = Call_socket AF_INET SOCK_DGRAM
   \<and> (\<forall>e. socket_raises w = Some e \<longrightarrow>
          program w = ([Call_socket AF_INET SOCK_DGRAM], Terminated e))
   \<and> (\<forall>e. socket_raises w = None \<and> bind_raises w = Some e \<longrightarrow>
          program w = ([Call_socket AF_INET SOCK_DGRAM, Call_bind (''127.0.0.1'', 3400)],
                       Terminated e))
   \<and> (socket_raises w = None \<and> bind_raises w = None \<longrightarrow>
          program w = ([Call_socket AF_INET SOCK_DGRAM, Call_bind (''127.0.0.1'', 3400)]
                         @ fst (main_loop (iterations w)),
                       snd (main_loop (iterations w))))
   \<and> (\<forall>i < length (fst (program w)).
          (\<forall>f k. fst (program w) ! i = Call_socket f k \<longrightarrow>
              i = 0 \<and> f = AF_INET \<and> k = SOCK_DGRAM)
        \<and> (\<forall>a. fst (program w) ! i = Call_bind a \<longrightarrow> i = 1 \<and> a = (''127.0.0.1'', 3400))
        \<and> (\<forall>n. fst (program w) ! i = Call_recvfrom n \<longrightarrow>
              2 \<le> i \<and> socket_raises w = None \<and> bind_raises w = None
              \<and> fst (program w) ! 1 = Call_bind (''127.0.0.1'', 3400)))"
proof (intro conjI allI impI)
  show "fst (program w) \<noteq> []"
    by (simp add: program_def split: option.splits)
  show "fst (program w) ! 0 = Call_socket AF_INET SOCK_DGRAM"
    by (simp add: program_def split: option.splits)
next
  fix e assume "socket_raises w = Some e"
  then show "program w = ([Call_socket AF_INET SOCK_DGRAM], Terminated e)"
    by (rule program_failed_socket)
next
  fix e assume "socket_raises w = None \<and> bind_raises w = Some e"
  then show "program w = ([Call_socket AF_INET SOCK_DGRAM, Call_bind (''127.0.0.1'', 3400)],
                       Terminated e)"
    by (simp add: program_failed_bind UDP_IP_def UDP_PORT_def)
next
  assume "socket_raises w = None \<and> bind_raises w = None"
  then show "program w = ([Call_socket AF_INET SOCK_DGRAM, Call_bind (''127.0.0.1'', 3400)]
                         @ fst (main_loop (iterations w)),
                       snd (main_loop (iterations w)))"
    by (simp add: program_started UDP_IP_def UDP_PORT_def)
next
  fix i f k
  assume "i < length (fst (program w))" and c: "fst (program w) ! i = Call_socket f k"
  then have "fst (program w) ! i = Call_socket f k \<longrightarrow> i = 0 \<and> f = AF_INET \<and> k = SOCK_DGRAM"
  proof (cases rule: program_at)
    case (socket_failed e)
    then show ?thesis by simp
  next
    case (bind_failed e)
    from below_2 [OF bind_failed(2)] show ?thesis
      by (elim disjE) (simp_all add: bind_failed(1))
  next
    case (startup q)
    from below_2 [OF startup(2)] show ?thesis
      by (elim disjE) (simp_all add: startup(1))
  next
    case (recv_raised pre j e)
    from below_2 [OF recv_raised(3)] show ?thesis
      by (elim disjE) (simp_all add: recv_raised(1,2) nth_append)
  next
    case (sent pre j d a n q)
    from below_7 [OF sent(3)] show ?thesis
      by (elim disjE) (simp_all add: sent(1,2) nth_append)
  next
    case (caught pre j d a e q)
    from below_8 [OF caught(3)] show ?thesis
      by (elim disjE) (simp_all add: caught(1,2) nth_append)
  next
    case (escaped pre j d a e)
    from below_7 [OF escaped(3)] show ?thesis
      by (elim disjE) (simp_all add: escaped(1,2) nth_append)
  next
    case (blocked pre)
    then show ?thesis by simp
  qed
  with c show "i = 0" and "f = AF_INET" and "k = SOCK_DGRAM" by simp_all
next
  fix i a
  assume "i < length (fst (program w))" and c: "fst (program w) ! i = Call_bind a"
  then have "fst (program w) ! i = Call_bind a \<longrightarrow> i = 1 \<and> a = (UDP_IP, UDP_PORT)"
  proof (cases rule: program_at)
    case (socket_failed e)
    then show ?thesis by simp
  next
    case (bind_failed e)
    from below_2 [OF bind_failed(2)] show ?thesis
      by (elim disjE) (auto simp add: bind_failed(1))
  next
    case (startup q)
    from below_2 [OF startup(2)] show ?thesis
      by (elim disjE) (auto simp add: startup(1))
  next
    case (recv_raised pre j e)
    from below_2 [OF recv_raised(3)] show ?thesis
      by (elim disjE) (simp_all add: recv_raised(1,2) nth_append)
  next
    case (sent pre j d a n q)
    from below_7 [OF sent(3)] show ?thesis
      by (elim disjE) (simp_all add: sent(1,2) nth_append)
  next
    case (caught pre j d a e q)
    from below_8 [OF caught(3)] show ?thesis
      by (elim disjE) (simp_all add: caught(1,2) nth_append)
  next
    case (escaped pre j d a e)
    from below_7 [OF escaped(3)] show ?thesis
      by (elim disjE) (simp_all add: escaped(1,2) nth_append)
  next
    case (blocked pre)
    then show ?thesis by simp
  qed
  with c show "i = 1" and "a = (''127.0.0.1'', 3400)"
    by (simp_all add: UDP_IP_def UDP_PORT_def)
next
  fix i n
  assume i: "i < length (fst (program w))" and c: "fst (program w) ! i = Call_recvfrom n"
  from i have "fst (program w) ! i = Call_recvfrom n \<longrightarrow> 2 \<le> i"
  proof (cases rule: program_at)
    case (socket_failed e)
    then show ?thesis by simp
  next
    case (bind_failed e)
    from below_2 [OF bind_failed(2)] show ?thesis
      by (elim disjE) (simp_all add: bind_failed(1))
  next
    case (startup q)
    from below_2 [OF startup(2)] show ?thesis
      by (elim disjE) (simp_all add: startup(1))
  next
    case (recv_raised pre j e)
    then show ?thesis by simp
  next
    case (sent pre j d a n q)
    then show ?thesis by simp
  next
    case (caught pre j d a e q)
    then show ?thesis by simp
  next
    case (escaped pre j d a e)
    then show ?thesis by simp
  next
    case (blocked pre)
    then show ?thesis by simp
  qed
  with c show two: "2 \<le> i" by simp
  show s: "socket_raises w = None"
  proof (cases "socket_raises w")
    case (Some e)
    from program_failed_socket [OF Some] i two show ?thesis by simp
  qed simp
  show b: "bind_raises w = None"
  proof (cases "bind_raises w")
    case (Some e)
    from program_failed_bind [OF s Some] i two show ?thesis by simp
  qed simp
  from program_started [OF s b]
  show "fst (program w) ! 1 = Call_bind (''127.0.0.1'', 3400)"
    by (simp add: UDP_IP_def UDP_PORT_def)
qed

theorem startup_socket_and_bind_witness:
  "socket_raises port_taken_world = None
   \<and> bind_raises port_taken_world
       = Some (Exception_instance ''OSError'' ''[Errno 98] Address already in use'')
   \<and> program port_taken_world =
       ([Call_socket AF_INET SOCK_DGRAM, Call_bind (''127.0.0.1'', 3400)],
        Terminated (Exception_instance ''OSError'' ''[Errno 98] Address already in use''))"
proof -
  have h: "socket_raises port_taken_world = None
      \<and> bind_raises port_taken_world
          = Some (Exception_instance ''OSError'' ''[Errno 98] Address already in use'')"
    by (simp add: port_taken_world_def)
  from startup_socket_and_bind
         [of port_taken_world, THEN conjunct2, THEN conjunct2, THEN conjunct2, THEN conjunct1,
          rule_format, OF h] h
  show ?thesis by simp
qed

section \<open>The hex dump writes nothing but its result\<close>

lemma byte_seq_at_less: "byte_seq_at h r = Some bs \<Longrightarrow> r < length h"
  by (simp add: byte_seq_at_def split: if_splits)

lemma byte_seq_at_append:
  "byte_seq_at h r = Some bs \<Longrightarrow> byte_seq_at (h @ h') r = Some bs"
  by (simp add: byte_seq_at_def nth_append split: if_splits)

lemma list_append_fresh:
  "list_append (h @ [Str_list l]) (length h) s = Some (h @ [Str_list (l @ [s])])"
  by (simp add: list_append_def str_list_at_def)

lemma bytes_dump_iter_fresh:
  assumes "byte_seq_at h idata = Some bs"
  shows "i \<le> length bs \<Longrightarrow>
         bytes_dump_iter idata (length h) i (h @ [Str_list l]) =
           Some (h @ [Str_list (l @ map (\<lambda>byte. format_02X (uint byte)) (drop i bs))])"
proof (induction "length bs - i" arbitrary: i l)
  case 0
  then have "i = length bs" by simp
  with byte_seq_at_append [OF assms, of "[Str_list l]"] show ?case
    by (subst bytes_dump_iter.simps) simp
next
  case (Suc k)
  then have lt: "i < length bs" and k: "k = length bs - Suc i" and le: "Suc i \<le> length bs"
    by simp_all
  from lt have d: "drop i bs = bs ! i # drop (Suc i) bs"
    by (simp add: Cons_nth_drop_Suc)
  have "bytes_dump_iter idata (length h) i (h @ [Str_list l]) =
          bytes_dump_iter idata (length h) (Suc i)
            (h @ [Str_list (l @ [format_02X (uint (bs ! i))])])"
    using lt byte_seq_at_append [OF assms, of "[Str_list l]"]
    by (subst bytes_dump_iter.simps) (simp add: list_append_fresh)
  also have "\<dots> = Some (h @ [Str_list ((l @ [format_02X (uint (bs ! i))])
                 @ map (\<lambda>byte. format_02X (uint byte)) (drop (Suc i) bs))])"
    by (rule Suc.hyps(1) [OF k le])
  finally show ?case by (simp add: d)
qed

lemma bytes_dump_store_result:
  assumes "byte_seq_at h idata = Some bs"
  shows "bytes_dump_store idata h = Some (length h, h @ [Str_list (bytes_dump bs)])"
  using bytes_dump_iter_fresh [OF assms, of 0 "[]"]
  by (simp add: bytes_dump_store_def bytes_dump_map)

text \<open>
  Claim C10.  Called on a reference to a byte sequence, \<open>bytes_dump\<close> returns a
  reference to a new list and leaves every object that was in the store unchanged, its
  argument among them: the store after the call is the store before it with the new list
  at the end.  The new list depends on the bytes of the argument alone: two calls on
  equal byte sequences, in whatever stores and behind whatever references, return equal
  lists.
\<close>

theorem bytes_dump_deterministic_and_pure:
  assumes "byte_seq_at h idata = Some bs"
  shows "\<exists>h'. bytes_dump_store idata h = Some (length h, h')
           \<and> length h' = Suc (length h)
           \<and> take (length h) h' = h
           \<and> (\<forall>r < length h. h' ! r = h ! r)
           \<and> byte_seq_at h' idata = Some bs
           \<and> str_list_at h' (length h) = Some (bytes_dump bs)
           \<and> (\<forall>h2 idata2. byte_seq_at h2 idata2 = Some bs \<longrightarrow>
                 (\<exists>h2'. bytes_dump_store idata2 h2 = Some (length h2, h2')
                    \<and> str_list_at h2' (length h2) = str_list_at h' (length h)))"
proof (intro exI conjI allI impI)
  show "bytes_dump_store idata h = Some (length h, h @ [Str_list (bytes_dump bs)])"
    by (rule bytes_dump_store_result [OF assms])
  show "length (h @ [Str_list (bytes_dump bs)]) = Suc (length h)" by simp
  show "take (length h) (h @ [Str_list (bytes_dump bs)]) = h" by simp
  show "byte_seq_at (h @ [Str_list (bytes_dump bs)]) idata = Some bs"
    by (rule byte_seq_at_append [OF assms])
  show "str_list_at (h @ [Str_list (bytes_dump bs)]) (length h) = Some (bytes_dump bs)"
    by (simp add: str_list_at_def)
next
  fix r assume "r < length h"
  then show "(h @ [Str_list (bytes_dump bs)]) ! r = h ! r" by (simp add: nth_append)
next
  fix h2 idata2 assume "byte_seq_at h2 idata2 = Some bs"
  then show "bytes_dump_store idata2 h2
      = Some (length h2, h2 @ [Str_list (bytes_dump bs)])"
    by (rule bytes_dump_store_result)
  show "str_list_at (h2 @ [Str_list (bytes_dump bs)]) (length h2)
      = str_list_at (h @ [Str_list (bytes_dump bs)]) (length h)"
    by (simp add: str_list_at_def)
qed

theorem bytes_dump_deterministic_and_pure_witness:
  "byte_seq_at [Str_list [''x''], Byte_seq [0, 10, 255]] 1 = Some [0, 10, 255]
   \<and> (\<exists>h'. bytes_dump_store 1 [Str_list [''x''], Byte_seq [0, 10, 255]] = Some (2, h')
          \<and> take 2 h' = [Str_list [''x''], Byte_seq [0, 10, 255]]
          \<and> str_list_at h' 2 = Some [''00'', ''0A'', ''FF''])"
proof -
  have h: "byte_seq_at [Str_list [''x''], Byte_seq [0, 10, 255]] 1 = Some [0, 10, 255]"
    by (simp add: byte_seq_at_def)
  have d: "bytes_dump [0, 10, 255] = [''00'', ''0A'', ''FF'']"
    by (simp add: bytes_dump_map format_02X_byte hex_digit_upper_def)
  from bytes_dump_deterministic_and_pure [OF h] h show ?thesis
    unfolding d by (auto simp: numeral_2_eq_2)
qed

end
